theory Spec2Isabelle
  imports Main "HOL-Library.Word"
begin

section \<open>Data model of \<open>backend_utils/file_handlers.py\<close>\<close>

text \<open>
  A Python \<open>str\<close> is a sequence of Unicode code points, a \<open>bytes\<close> object a sequence of
  octets. String literals of the source are written with \<open>py\<close>.
\<close>

type_synonym pystr = "nat list"
type_synonym byte = "8 word"

definition py :: "string \<Rightarrow> pystr" where
  "py s = map of_char s"

text \<open>
  The exceptions that occur in the module. All three derive from Python's \<open>Exception\<close>,
  so a clause \<open>except Exception\<close> catches each of them; \<open>LibraryError\<close> stands for
  whatever \<open>Exception\<close> subclass PyPDF2 or python-docx raise while parsing.
\<close>

datatype exn = ValueError pystr | UnicodeDecodeError | LibraryError string

text \<open>
  The uploaded file is an in-memory stream (Streamlit's \<open>UploadedFile\<close> is a
  \<open>BytesIO\<close>): its bytes, the current read position, and whether the stream has been
  closed. \<open>file.read()\<close> raises \<open>ValueError\<close> on a closed stream and otherwise yields
  the bytes from the position to the end.
\<close>

record uploaded_file =
  content :: "byte list"
  pos :: nat
  closed :: bool

definition file_read :: "uploaded_file \<Rightarrow> exn + byte list" where
  "file_read file =
     (if closed file then Inl (ValueError (py ''I/O operation on closed file.''))
      else Inr (drop (pos file) (content file)))"

text \<open>The four subclasses of \<open>FileHandler\<close>; none of them has a field.\<close>

datatype file_handler = PDFHandler | DocxHandler | TxtHandler | CSVFileHandler

section \<open>\<open>FileHandlerFactory.get_file_handler\<close>\<close>

definition get_file_handler :: "pystr \<Rightarrow> exn + file_handler" where
  "get_file_handler file_type =
     (if file_type = py ''application/pdf'' then Inr PDFHandler
      else if file_type =
          py ''application/vnd.openxmlformats-officedocument.wordprocessingml.document''
        then Inr DocxHandler
      else if file_type = py ''text/plain'' then Inr TxtHandler
      else if file_type = py ''text/csv'' then Inr CSVFileHandler
      else Inl (ValueError (py ''Invalid file type'')))"

definition supported_types :: "pystr set" where
  "supported_types =
     {py ''application/pdf'',
      py ''application/vnd.openxmlformats-officedocument.wordprocessingml.document'',
      py ''text/plain'',
      py ''text/csv''}"

section \<open>Python built-ins used by the handlers\<close>

text \<open>
  \<open>bytes.decode('utf-8')\<close> with the default strict error handling: the well-formed byte
  sequences are those of the Unicode standard (no overlong forms, no surrogates, nothing
  above U+10FFFF, no byte-order-mark stripping); the first ill-formed sequence raises
  \<open>UnicodeDecodeError\<close>. \<open>decode_units\<close> works on the numeric values of the bytes,
  \<open>None\<close> being the raise.
\<close>

definition continuation :: "nat \<Rightarrow> bool" where
  "continuation b \<longleftrightarrow> 0x80 \<le> b \<and> b \<le> 0xBF"

fun decode_units :: "nat list \<Rightarrow> nat list option" where
  "decode_units [] = Some []"
| "decode_units (b0 # bs) =
     (if b0 < 0x80 then map_option ((#) b0) (decode_units bs)
      else if 0xC2 \<le> b0 \<and> b0 \<le> 0xDF then
        (case bs of
           b1 # r \<Rightarrow>
             if continuation b1
             then map_option ((#) ((b0 - 0xC0) * 0x40 + (b1 - 0x80))) (decode_units r)
             else None
         | _ \<Rightarrow> None)
      else if 0xE0 \<le> b0 \<and> b0 \<le> 0xEF then
        (case bs of
           b1 # b2 # r \<Rightarrow>
             if (if b0 = 0xE0 then 0xA0 else 0x80) \<le> b1 \<and>
                b1 \<le> (if b0 = 0xED then 0x9F else 0xBF) \<and> continuation b2
             then map_option
                    ((#) ((b0 - 0xE0) * 0x1000 + (b1 - 0x80) * 0x40 + (b2 - 0x80)))
                    (decode_units r)
             else None
         | _ \<Rightarrow> None)
      else if 0xF0 \<le> b0 \<and> b0 \<le> 0xF4 then
        (case bs of
           b1 # b2 # b3 # r \<Rightarrow>
             if (if b0 = 0xF0 then 0x90 else 0x80) \<le> b1 \<and>
                b1 \<le> (if b0 = 0xF4 then 0x8F else 0xBF) \<and>
                continuation b2 \<and> continuation b3
             then map_option
                    ((#) ((b0 - 0xF0) * 0x40000 + (b1 - 0x80) * 0x1000 +
                          (b2 - 0x80) * 0x40 + (b3 - 0x80)))
                    (decode_units r)
             else None
         | _ \<Rightarrow> None)
      else None)"

definition decode_utf8 :: "byte list \<Rightarrow> exn + pystr" where
  "decode_utf8 bs =
     (case decode_units (map unat bs) of
        None \<Rightarrow> Inl UnicodeDecodeError
      | Some s \<Rightarrow> Inr s)"

text \<open>\<open>sep.join(items)\<close>: the separator goes between consecutive items only.\<close>

fun str_join :: "pystr \<Rightarrow> pystr list \<Rightarrow> pystr" where
  "str_join sep [] = []"
| "str_join sep [x] = x"
| "str_join sep (x # y # ys) = x @ sep @ str_join sep (y # ys)"

text \<open>The truth value of a \<open>str\<close>-or-\<open>None\<close>: \<open>None\<close> and \<open>""\<close> are false.\<close>

fun truthy :: "pystr option \<Rightarrow> bool" where
  "truthy None = False"
| "truthy (Some s) = (s \<noteq> [])"

section \<open>The parsing libraries\<close>

text \<open>
  PyPDF2 and python-docx are not part of the module; the handlers are modelled for any
  behaviour of the two constructors. \<open>PdfReader(file)\<close> raises or gives the pages, and
  \<open>page.extract_text()\<close> raises or returns a string (or nothing) for each page;
  \<open>Document(file)\<close> raises or gives the paragraphs, whose \<open>text\<close> property raises or
  is a string. Both constructors are handed the stream itself, in which they may seek:
  what they return may depend on all of its content, on its position and on whether it
  is closed.
\<close>

datatype pdf_page = Page (extract_text: "exn + pystr option")

datatype docx_paragraph = Paragraph (paragraph_text: "exn + pystr")

record library =
  PdfReader :: "uploaded_file \<Rightarrow> exn + pdf_page list"
  Document :: "uploaded_file \<Rightarrow> exn + docx_paragraph list"

section \<open>The handlers\<close>

text \<open>
  Every \<open>read_file\<close> gives the exception that leaves it (\<open>Inl\<close>) or the value it
  returns (\<open>Inr\<close>), a string (\<open>Some\<close>) or Python's \<open>None\<close>.
\<close>

text \<open>The \<open>for page in pdf_reader.pages\<close> loop, \<open>text\<close> being the accumulator.\<close>

fun pdf_pages_loop :: "pystr \<Rightarrow> pdf_page list \<Rightarrow> exn + pystr" where
  "pdf_pages_loop text [] = Inr text"
| "pdf_pages_loop text (page # pages) =
     (case extract_text page of
        Inl e \<Rightarrow> Inl e
      | Inr page_text \<Rightarrow>
          if truthy page_text then pdf_pages_loop (text @ the page_text) pages
          else pdf_pages_loop text pages)"

definition PDFHandler_read_file :: "library \<Rightarrow> uploaded_file \<Rightarrow> exn + pystr option" where
  "PDFHandler_read_file lib file =
     (case (case PdfReader lib file of
              Inl e \<Rightarrow> Inl e
            | Inr pages \<Rightarrow> pdf_pages_loop [] pages) of
        Inr text \<Rightarrow> Inr (Some text)
      | Inl e \<Rightarrow> Inr (Some []))"

text \<open>The list comprehension \<open>[paragraph.text for paragraph in doc.paragraphs]\<close>.\<close>

fun paragraph_texts :: "docx_paragraph list \<Rightarrow> exn + pystr list" where
  "paragraph_texts [] = Inr []"
| "paragraph_texts (p # ps) =
     (case paragraph_text p of
        Inl e \<Rightarrow> Inl e
      | Inr t \<Rightarrow>
          (case paragraph_texts ps of
             Inl e \<Rightarrow> Inl e
           | Inr ts \<Rightarrow> Inr (t # ts)))"

definition DocxHandler_read_file :: "library \<Rightarrow> uploaded_file \<Rightarrow> exn + pystr option" where
  "DocxHandler_read_file lib file =
     (case (case Document lib file of
              Inl e \<Rightarrow> Inl e
            | Inr paragraphs \<Rightarrow>
                (case paragraph_texts paragraphs of
                   Inl e \<Rightarrow> Inl e
                 | Inr ts \<Rightarrow> Inr (str_join (py '' '') ts))) of
        Inr s \<Rightarrow> Inr (Some s)
      | Inl e \<Rightarrow> Inr (Some []))"

definition TxtHandler_read_file :: "uploaded_file \<Rightarrow> exn + pystr option" where
  "TxtHandler_read_file file =
     (case (case file_read file of
              Inl e \<Rightarrow> Inl e
            | Inr bs \<Rightarrow> decode_utf8 bs) of
        Inr s \<Rightarrow> Inr (Some s)
      | Inl e \<Rightarrow> Inr (Some []))"

text \<open>
  \<open>CSVFileHandler\<close> has the same \<open>try\<close> body as \<open>TxtHandler\<close> but catches
  \<open>UnicodeDecodeError\<close> only; any other exception leaves the method.
\<close>

definition CSVFileHandler_read_file :: "uploaded_file \<Rightarrow> exn + pystr option" where
  "CSVFileHandler_read_file file =
     (case (case file_read file of
              Inl e \<Rightarrow> Inl e
            | Inr bs \<Rightarrow> decode_utf8 bs) of
        Inr csv_data \<Rightarrow> Inr (Some csv_data)
      | Inl UnicodeDecodeError \<Rightarrow> Inr None
      | Inl e \<Rightarrow> Inl e)"

text \<open>The call \<open>handler.read_file(file)\<close>, dispatched on the handler's class.\<close>

fun read_file :: "library \<Rightarrow> file_handler \<Rightarrow> uploaded_file \<Rightarrow> exn + pystr option" where
  "read_file lib PDFHandler file = PDFHandler_read_file lib file"
| "read_file lib DocxHandler file = DocxHandler_read_file lib file"
| "read_file lib TxtHandler file = TxtHandler_read_file file"
| "read_file lib CSVFileHandler file = CSVFileHandler_read_file file"

section \<open>Reference notions for the statements\<close>

text \<open>
  UTF-8 as the Unicode standard defines it: the encoding of a scalar value (a code point
  that is not a surrogate), and of a string. A byte string is valid UTF-8 when it is the
  encoding of a string of scalar values.
\<close>

definition scalar_value :: "nat \<Rightarrow> bool" where
  "scalar_value cp \<longleftrightarrow> cp < 0xD800 \<or> (0xE000 \<le> cp \<and> cp \<le> 0x10FFFF)"

definition encode_cp :: "nat \<Rightarrow> nat list" where
  "encode_cp cp =
     (if cp < 0x80 then [cp]
      else if cp < 0x800 then [0xC0 + cp div 0x40, 0x80 + cp mod 0x40]
      else if cp < 0x10000 then
        [0xE0 + cp div 0x1000, 0x80 + cp div 0x40 mod 0x40, 0x80 + cp mod 0x40]
      else
        [0xF0 + cp div 0x40000, 0x80 + cp div 0x1000 mod 0x40,
         0x80 + cp div 0x40 mod 0x40, 0x80 + cp mod 0x40])"

definition utf8_encode :: "pystr \<Rightarrow> byte list" where
  "utf8_encode s = map of_nat (concat (map encode_cp s))"

definition valid_utf8 :: "byte list \<Rightarrow> bool" where
  "valid_utf8 bs \<longleftrightarrow> (\<exists>s. list_all scalar_value s \<and> utf8_encode s = bs)"

text \<open>
  What a page contributes to the extracted text: the string \<open>extract_text\<close> returns,
  nothing when it returns \<open>None\<close>; a page yields text when that string is not empty.
\<close>

definition page_text :: "pdf_page \<Rightarrow> pystr" where
  "page_text p = (case extract_text p of Inr (Some t) \<Rightarrow> t | _ \<Rightarrow> [])"

definition yields_text :: "pdf_page \<Rightarrow> bool" where
  "yields_text p \<longleftrightarrow> page_text p \<noteq> []"

text \<open>
  Texts joined with single spaces, said without \<open>join\<close>: every text but the last is
  followed by one space.
\<close>

definition space_separated :: "pystr list \<Rightarrow> pystr" where
  "space_separated ts =
     (if ts = [] then [] else concat (map (\<lambda>t. t @ py '' '') (butlast ts)) @ last ts)"

text \<open>A call that raises, whatever the exception.\<close>

definition raises :: "exn + 'a \<Rightarrow> bool" where
  "raises r \<longleftrightarrow> (case r of Inl e \<Rightarrow> True | Inr v \<Rightarrow> False)"

section \<open>Sample inputs\<close>

text \<open>
  Library behaviours and files on which the statements below are evaluated: a library
  whose constructors both raise, one that parses every upload into the same three
  paragraphs and four pages (the second page returns \<open>None\<close>, the third the empty
  string), and one whose second page raises during text extraction; an open file with
  valid UTF-8, one with an invalid byte, and a closed one.
\<close>

definition failing_library :: library where
  "failing_library =
     \<lparr>PdfReader = (\<lambda>file. Inl (LibraryError ''EOF marker not found'')),
      Document = (\<lambda>file. Inl (LibraryError ''File is not a zip file''))\<rparr>"

definition sample_pages :: "pdf_page list" where
  "sample_pages =
     [Page (Inr (Some (py ''Hello''))), Page (Inr None), Page (Inr (Some [])),
      Page (Inr (Some (py ''world'')))]"

definition sample_paragraphs :: "docx_paragraph list" where
  "sample_paragraphs =
     [Paragraph (Inr (py ''Hello'')), Paragraph (Inr []), Paragraph (Inr (py ''world''))]"

definition sample_library :: library where
  "sample_library =
     \<lparr>PdfReader = (\<lambda>file. Inr sample_pages),
      Document = (\<lambda>file. Inr sample_paragraphs)\<rparr>"

definition broken_page_library :: library where
  "broken_page_library =
     \<lparr>PdfReader = (\<lambda>file. Inr [Page (Inr (Some (py ''Hello''))),
                                Page (Inl (LibraryError ''File has not been decrypted''))]),
      Document = (\<lambda>file. Inr [Paragraph (Inr (py ''Hello'')),
                               Paragraph (Inr (py ''world''))])\<rparr>"

definition sample_file :: uploaded_file where
  "sample_file = \<lparr>content = [0x48, 0xC3, 0xA9], pos = 0, closed = False\<rparr>"

definition invalid_file :: uploaded_file where
  "invalid_file = \<lparr>content = [0x48, 0xFF], pos = 0, closed = False\<rparr>"


section \<open>The selector\<close>

lemma py_eq_iff: "py s = py t \<longleftrightarrow> s = t"
  by (simp add: py_def inj_map_eq_map inj_of_char)

text \<open>
  C1: each of the four MIME strings is mapped to the handler of its format, and every
  other string makes the selector raise \<open>ValueError("Invalid file type")\<close>, the
  unsupported-format failure; no handler is returned then, so nothing is extracted.
\<close>

theorem get_file_handler_select:
  "get_file_handler (py ''application/pdf'') = Inr PDFHandler \<and>
   get_file_handler
     (py ''application/vnd.openxmlformats-officedocument.wordprocessingml.document'')
     = Inr DocxHandler \<and>
   get_file_handler (py ''text/plain'') = Inr TxtHandler \<and>
   get_file_handler (py ''text/csv'') = Inr CSVFileHandler \<and>
   (\<forall>file_type. file_type \<notin> supported_types \<longrightarrow>
      get_file_handler file_type = Inl (ValueError (py ''Invalid file type'')))"
  by (simp add: get_file_handler_def supported_types_def py_eq_iff)

theorem get_file_handler_select_witness:
  "py ''image/png'' \<notin> supported_types \<and>
   get_file_handler (py ''image/png'') = Inl (ValueError (py ''Invalid file type''))"
  using get_file_handler_select by (simp add: supported_types_def py_eq_iff)

section \<open>Auxiliary facts\<close>

lemma raises_simps [simp]: "raises (Inl e)" "\<not> raises (Inr v)"
  by (simp_all add: raises_def)

lemma pdf_pages_loop_all:
  "list_all (\<lambda>p. \<not> raises (extract_text p)) pages \<Longrightarrow>
   pdf_pages_loop acc pages = Inr (acc @ concat (map page_text (filter yields_text pages)))"
proof (induction pages arbitrary: acc)
  case Nil
  then show ?case by simp
next
  case (Cons p pages)
  then obtain t where t: "extract_text p = Inr t"
    by (cases "extract_text p") simp_all
  show ?case
  proof (cases t)
    case None
    with t Cons show ?thesis
      by (simp add: page_text_def yields_text_def)
  next
    case (Some u)
    with t Cons show ?thesis
      by (simp add: page_text_def yields_text_def)
  qed
qed

lemma concat_page_text_filter:
  "concat (map page_text (filter yields_text pages)) = concat (map page_text pages)"
  by (induction pages) (simp_all add: yields_text_def)

lemma pdf_pages_loop_raises:
  "list_ex (\<lambda>p. raises (extract_text p)) pages \<Longrightarrow> raises (pdf_pages_loop acc pages)"
proof (induction pages arbitrary: acc)
  case Nil
  then show ?case by simp
next
  case (Cons p pages)
  show ?case
  proof (cases "extract_text p")
    case (Inl e)
    then show ?thesis by simp
  next
    case (Inr t)
    with Cons.prems have "list_ex (\<lambda>p. raises (extract_text p)) pages"
      by simp
    with Inr show ?thesis
      by (simp add: Cons.IH)
  qed
qed

lemma paragraph_texts_all:
  "map paragraph_text ps = map Inr ts \<Longrightarrow> paragraph_texts ps = Inr ts"
  by (induction ps arbitrary: ts) auto

lemma str_join_Cons:
  "str_join sep (t # ts) = t @ concat (map (\<lambda>u. sep @ u) ts)"
  by (induction ts arbitrary: t) simp_all

lemma length_str_join:
  "length (str_join sep ts) = sum_list (map length ts) + length sep * (length ts - 1)"
proof (cases ts)
  case Nil
  then show ?thesis by simp
next
  case (Cons t us)
  have "length (concat (map (\<lambda>u. sep @ u) us)) = sum_list (map length us) + length sep * length us"
    by (induction us) (simp_all add: algebra_simps)
  with Cons show ?thesis
    by (simp add: str_join_Cons)
qed

lemma str_join_append:
  "us \<noteq> [] \<Longrightarrow> vs \<noteq> [] \<Longrightarrow>
   str_join sep (us @ vs) = str_join sep us @ sep @ str_join sep vs"
  by (cases us; cases vs) (simp_all add: str_join_Cons)

lemma str_join_butlast:
  "ts \<noteq> [] \<Longrightarrow> str_join sep ts = concat (map (\<lambda>t. t @ sep) (butlast ts)) @ last ts"
  by (induction sep ts rule: str_join.induct) simp_all

lemma space_separated_str_join: "space_separated ts = str_join (py '' '') ts"
  by (cases "ts = []") (simp_all add: space_separated_def str_join_butlast)

lemma sum_list_length_filter:
  "sum_list (map length (filter (\<lambda>t. t \<noteq> []) ts)) = sum_list (map length ts)"
  by (induction ts) simp_all

lemma length_filter_nonempty:
  "[] \<in> set ts \<Longrightarrow> length (filter (\<lambda>t. t \<noteq> []) ts) < length ts"
  by (induction ts) (auto simp: less_Suc_eq_le)

lemma str_join_filter_differs:
  assumes "[] \<in> set ts" "2 \<le> length ts"
  shows "str_join (py '' '') ts \<noteq> str_join (py '' '') (filter (\<lambda>t. t \<noteq> []) ts)"
proof
  assume "str_join (py '' '') ts = str_join (py '' '') (filter (\<lambda>t. t \<noteq> []) ts)"
  then have "length (str_join (py '' '') ts) =
      length (str_join (py '' '') (filter (\<lambda>t. t \<noteq> []) ts))"
    by simp
  then have "length ts - 1 = length (filter (\<lambda>t. t \<noteq> []) ts) - 1"
    by (simp add: length_str_join sum_list_length_filter py_def)
  with length_filter_nonempty [OF assms(1)] assms(2) show False
    by linarith
qed

lemma decode_utf8_raises:
  "decode_utf8 bs = Inl e \<Longrightarrow> e = UnicodeDecodeError"
  by (auto simp: decode_utf8_def split: option.splits)

section \<open>UTF-8: the decoder inverts the encoding\<close>

subsection \<open>The decoder on a leading byte of each length\<close>

lemma decode_units_2:
  "0xC2 \<le> b0 \<Longrightarrow> b0 \<le> 0xDF \<Longrightarrow> continuation b1 \<Longrightarrow>
   decode_units (b0 # b1 # r) =
     map_option ((#) ((b0 - 0xC0) * 0x40 + (b1 - 0x80))) (decode_units r)"
  by simp

lemma decode_units_3:
  "0xE0 \<le> b0 \<Longrightarrow> b0 \<le> 0xEF \<Longrightarrow>
   (if b0 = 0xE0 then 0xA0 else 0x80) \<le> b1 \<Longrightarrow>
   b1 \<le> (if b0 = 0xED then 0x9F else 0xBF) \<Longrightarrow> continuation b2 \<Longrightarrow>
   decode_units (b0 # b1 # b2 # r) =
     map_option ((#) ((b0 - 0xE0) * 0x1000 + (b1 - 0x80) * 0x40 + (b2 - 0x80)))
       (decode_units r)"
  by simp

lemma decode_units_4:
  "0xF0 \<le> b0 \<Longrightarrow> b0 \<le> 0xF4 \<Longrightarrow>
   (if b0 = 0xF0 then 0x90 else 0x80) \<le> b1 \<Longrightarrow>
   b1 \<le> (if b0 = 0xF4 then 0x8F else 0xBF) \<Longrightarrow>
   continuation b2 \<Longrightarrow> continuation b3 \<Longrightarrow>
   decode_units (b0 # b1 # b2 # b3 # r) =
     map_option ((#) ((b0 - 0xF0) * 0x40000 + (b1 - 0x80) * 0x1000 +
                      (b2 - 0x80) * 0x40 + (b3 - 0x80)))
       (decode_units r)"
  by simp

subsection \<open>Base-64 digits of a number\<close>

lemma digits2:
  fixes a b :: nat
  assumes "b < 0x40"
  shows "(a * 0x40 + b) div 0x40 = a" "(a * 0x40 + b) mod 0x40 = b"
  using assms by simp_all

lemma digits3:
  fixes a b c :: nat
  assumes "b < 0x40" "c < 0x40"
  shows "(a * 0x1000 + b * 0x40 + c) div 0x1000 = a"
    "(a * 0x1000 + b * 0x40 + c) div 0x40 mod 0x40 = b"
    "(a * 0x1000 + b * 0x40 + c) mod 0x40 = c"
proof -
  have e: "a * 0x1000 + b * 0x40 + c = (a * 0x40 + b) * 0x40 + c"
    by simp
  have d: "(a * 0x1000 + b * 0x40 + c) div 0x40 = a * 0x40 + b"
    unfolding e using assms(2) by (rule digits2)
  show "(a * 0x1000 + b * 0x40 + c) div 0x40 mod 0x40 = b"
    unfolding d using assms(1) by simp
  show "(a * 0x1000 + b * 0x40 + c) mod 0x40 = c"
    unfolding e using assms(2) by (rule digits2)
  have "(a * 0x1000 + b * 0x40 + c) div 0x1000 = (a * 0x1000 + b * 0x40 + c) div 0x40 div 0x40"
    by (simp add: div_mult2_eq [symmetric])
  also have "\<dots> = a" unfolding d using assms(1) by simp
  finally show "(a * 0x1000 + b * 0x40 + c) div 0x1000 = a" .
qed

lemma digits4:
  fixes a b c d :: nat
  assumes "b < 0x40" "c < 0x40" "d < 0x40"
  shows "(a * 0x40000 + b * 0x1000 + c * 0x40 + d) div 0x40000 = a"
    "(a * 0x40000 + b * 0x1000 + c * 0x40 + d) div 0x1000 mod 0x40 = b"
    "(a * 0x40000 + b * 0x1000 + c * 0x40 + d) div 0x40 mod 0x40 = c"
    "(a * 0x40000 + b * 0x1000 + c * 0x40 + d) mod 0x40 = d"
proof -
  let ?n = "a * 0x40000 + b * 0x1000 + c * 0x40 + d"
  have e: "?n = (a * 0x1000 + b * 0x40 + c) * 0x40 + d"
    by simp
  have d: "?n div 0x40 = a * 0x1000 + b * 0x40 + c"
    unfolding e using assms(3) by (rule digits2)
  show "?n mod 0x40 = d"
    unfolding e using assms(3) by (rule digits2)
  show "?n div 0x40 mod 0x40 = c"
    unfolding d using assms by (simp only: digits3)
  have "?n div 0x1000 = ?n div 0x40 div 0x40"
    by (simp add: div_mult2_eq [symmetric])
  then show "?n div 0x1000 mod 0x40 = b"
    unfolding d using assms by (simp only: digits3)
  have "?n div 0x40000 = ?n div 0x40 div 0x1000"
    by (simp add: div_mult2_eq [symmetric])
  then show "?n div 0x40000 = a"
    unfolding d using assms by (simp only: digits3)
qed

lemma expand2:
  fixes n :: nat
  shows "n = n div 0x40 * 0x40 + n mod 0x40"
  by simp

lemma expand3:
  fixes n :: nat
  shows "n = n div 0x1000 * 0x1000 + n div 0x40 mod 0x40 * 0x40 + n mod 0x40"
proof -
  have "n div 0x1000 = n div 0x40 div 0x40"
    by (simp add: div_mult2_eq [symmetric])
  moreover have "n div 0x40 = n div 0x40 div 0x40 * 0x40 + n div 0x40 mod 0x40"
    by simp
  moreover have "n = n div 0x40 * 0x40 + n mod 0x40"
    by simp
  ultimately show ?thesis
    by linarith
qed

lemma expand4:
  fixes n :: nat
  shows "n = n div 0x40000 * 0x40000 + n div 0x1000 mod 0x40 * 0x1000 +
             n div 0x40 mod 0x40 * 0x40 + n mod 0x40"
proof -
  have "n div 0x40000 = n div 0x40 div 0x1000"
    by (simp add: div_mult2_eq [symmetric])
  moreover have "n div 0x1000 mod 0x40 = n div 0x40 div 0x40 mod 0x40"
    by (simp add: div_mult2_eq [symmetric])
  moreover have "n div 0x40 = n div 0x40 div 0x1000 * 0x1000 +
      n div 0x40 div 0x40 mod 0x40 * 0x40 + n div 0x40 mod 0x40"
    by (rule expand3)
  moreover have "n = n div 0x40 * 0x40 + n mod 0x40"
    by simp
  ultimately show ?thesis
    by linarith
qed


subsection \<open>Encoding then decoding\<close>

lemma enc_dec_2:
  assumes "0x80 \<le> cp" "cp < 0x800"
  shows "decode_units ((0xC0 + cp div 0x40) # (0x80 + cp mod 0x40) # r) =
         map_option ((#) cp) (decode_units r)"
proof -
  define q where "q = cp div 0x40"
  define m where "m = cp mod 0x40"
  have cp: "cp = q * 0x40 + m"
    unfolding q_def m_def by (rule expand2)
  have m: "m < 0x40"
    unfolding m_def by simp
  have q: "2 \<le> q" "q \<le> 0x1F"
    using assms cp m by linarith+
  have "decode_units ((0xC0 + q) # (0x80 + m) # r) =
        map_option ((#) ((0xC0 + q - 0xC0) * 0x40 + (0x80 + m - 0x80))) (decode_units r)"
    using q m by (intro decode_units_2) (simp_all add: continuation_def)
  then show ?thesis
    unfolding q_def [symmetric] m_def [symmetric] by (simp add: cp)
qed

lemma enc_dec_3:
  assumes "0x800 \<le> cp" "cp < 0x10000" "scalar_value cp"
  shows "decode_units ((0xE0 + cp div 0x1000) # (0x80 + cp div 0x40 mod 0x40) #
            (0x80 + cp mod 0x40) # r) =
         map_option ((#) cp) (decode_units r)"
proof -
  define a where "a = cp div 0x1000"
  define b where "b = cp div 0x40 mod 0x40"
  define c where "c = cp mod 0x40"
  have cp: "cp = a * 0x1000 + b * 0x40 + c"
    unfolding a_def b_def c_def by (rule expand3)
  have b: "b < 0x40" and c: "c < 0x40"
    unfolding b_def c_def by simp_all
  have a: "a \<le> 0xF"
    using assms(2) cp by linarith
  have lo: "a = 0 \<Longrightarrow> 0x20 \<le> b"
    using assms(1) cp c by linarith
  have hi: "a = 0xD \<Longrightarrow> b \<le> 0x1F"
    using assms(3) cp b c unfolding scalar_value_def by linarith
  have "decode_units ((0xE0 + a) # (0x80 + b) # (0x80 + c) # r) =
        map_option ((#) ((0xE0 + a - 0xE0) * 0x1000 + (0x80 + b - 0x80) * 0x40 +
                         (0x80 + c - 0x80))) (decode_units r)"
    using a b c lo hi by (intro decode_units_3) (simp_all add: continuation_def)
  then show ?thesis
    unfolding a_def [symmetric] b_def [symmetric] c_def [symmetric] by (simp add: cp)
qed

lemma enc_dec_4:
  assumes "0x10000 \<le> cp" "cp \<le> 0x10FFFF"
  shows "decode_units ((0xF0 + cp div 0x40000) # (0x80 + cp div 0x1000 mod 0x40) #
            (0x80 + cp div 0x40 mod 0x40) # (0x80 + cp mod 0x40) # r) =
         map_option ((#) cp) (decode_units r)"
proof -
  define a where "a = cp div 0x40000"
  define b where "b = cp div 0x1000 mod 0x40"
  define c where "c = cp div 0x40 mod 0x40"
  define d where "d = cp mod 0x40"
  have cp: "cp = a * 0x40000 + b * 0x1000 + c * 0x40 + d"
    unfolding a_def b_def c_def d_def by (rule expand4)
  have b: "b < 0x40" and c: "c < 0x40" and d: "d < 0x40"
    unfolding b_def c_def d_def by simp_all
  have a: "a \<le> 4"
    using assms(2) cp by linarith
  have lo: "a = 0 \<Longrightarrow> 0x10 \<le> b"
    using assms(1) cp c d by linarith
  have hi: "a = 4 \<Longrightarrow> b \<le> 0xF"
    using assms(2) cp by linarith
  have "decode_units ((0xF0 + a) # (0x80 + b) # (0x80 + c) # (0x80 + d) # r) =
        map_option ((#) ((0xF0 + a - 0xF0) * 0x40000 + (0x80 + b - 0x80) * 0x1000 +
                         (0x80 + c - 0x80) * 0x40 + (0x80 + d - 0x80))) (decode_units r)"
    using a b c d lo hi by (intro decode_units_4) (simp_all add: continuation_def)
  then show ?thesis
    unfolding a_def [symmetric] b_def [symmetric] c_def [symmetric] d_def [symmetric]
    by (simp add: cp)
qed

lemma decode_units_encode_cp:
  assumes "scalar_value cp"
  shows "decode_units (encode_cp cp @ r) = map_option ((#) cp) (decode_units r)"
proof -
  consider "cp < 0x80" | "0x80 \<le> cp" "cp < 0x800" | "0x800 \<le> cp" "cp < 0x10000"
    | "0x10000 \<le> cp" "cp \<le> 0x10FFFF"
    using assms unfolding scalar_value_def by linarith
  then show ?thesis
  proof cases
    case 1
    then show ?thesis by (simp add: encode_cp_def)
  next
    case 2
    then show ?thesis using enc_dec_2 [of cp r] by (simp add: encode_cp_def)
  next
    case 3
    then show ?thesis using enc_dec_3 [of cp r] assms by (simp add: encode_cp_def)
  next
    case 4
    then show ?thesis using enc_dec_4 [of cp r] by (simp add: encode_cp_def)
  qed
qed

lemma decode_units_encode:
  "list_all scalar_value s \<Longrightarrow> decode_units (concat (map encode_cp s)) = Some s"
  by (induction s) (simp_all add: decode_units_encode_cp)

subsection \<open>Decoding then encoding\<close>

lemma dec_enc_2:
  assumes "0xC2 \<le> b0" "b0 \<le> 0xDF" "continuation b1"
  shows "scalar_value ((b0 - 0xC0) * 0x40 + (b1 - 0x80)) \<and>
         encode_cp ((b0 - 0xC0) * 0x40 + (b1 - 0x80)) = [b0, b1]"
proof -
  define a where "a = b0 - 0xC0"
  define b where "b = b1 - 0x80"
  have b0: "b0 = 0xC0 + a" and b1: "b1 = 0x80 + b"
    using assms unfolding a_def b_def continuation_def by simp_all
  have a: "2 \<le> a" "a \<le> 0x1F" and b: "b < 0x40"
    using assms unfolding a_def b_def continuation_def by arith+
  define cp where "cp = a * 0x40 + b"
  have r: "0x80 \<le> cp" "cp < 0x800"
    using a b unfolding cp_def by linarith+
  have d: "cp div 0x40 = a" "cp mod 0x40 = b"
    unfolding cp_def using b by (rule digits2)+
  have "scalar_value cp"
    using r unfolding scalar_value_def by simp
  moreover have "encode_cp cp = [b0, b1]"
    using r by (simp add: encode_cp_def d b0 b1)
  ultimately show ?thesis
    unfolding cp_def a_def b_def by simp
qed

lemma dec_enc_3:
  assumes "0xE0 \<le> b0" "b0 \<le> 0xEF"
    "(if b0 = 0xE0 then 0xA0 else 0x80) \<le> b1"
    "b1 \<le> (if b0 = 0xED then 0x9F else 0xBF)" "continuation b2"
  shows "scalar_value ((b0 - 0xE0) * 0x1000 + (b1 - 0x80) * 0x40 + (b2 - 0x80)) \<and>
         encode_cp ((b0 - 0xE0) * 0x1000 + (b1 - 0x80) * 0x40 + (b2 - 0x80)) = [b0, b1, b2]"
proof -
  define a where "a = b0 - 0xE0"
  define b where "b = b1 - 0x80"
  define c where "c = b2 - 0x80"
  have b1': "0x80 \<le> b1" "b1 \<le> 0xBF"
    using assms(3,4) by (simp_all split: if_splits)
  have b0: "b0 = 0xE0 + a" and b1: "b1 = 0x80 + b" and b2: "b2 = 0x80 + c"
    using assms(1,5) b1' unfolding a_def b_def c_def continuation_def by simp_all
  have a: "a \<le> 0xF" and b: "b < 0x40" and c: "c < 0x40"
    using assms(2,5) b1' unfolding a_def b_def c_def continuation_def by arith+
  have lo: "a = 0 \<Longrightarrow> 0x20 \<le> b"
    using assms(3) unfolding b0 b1 by simp
  have hi: "a = 0xD \<Longrightarrow> b \<le> 0x1F"
    using assms(4) unfolding b0 b1 by simp
  define cp where "cp = a * 0x1000 + b * 0x40 + c"
  have r: "0x800 \<le> cp" "cp < 0x10000"
    using a b c lo unfolding cp_def by linarith+
  have s: "cp < 0xD800 \<or> 0xE000 \<le> cp"
  proof -
    consider "a \<le> 0xC" | "a = 0xD" | "0xE \<le> a"
      by linarith
    then show ?thesis
    proof cases
      case 1
      then show ?thesis using b c unfolding cp_def by linarith
    next
      case 2
      with hi have "b \<le> 0x1F" by simp
      with 2 show ?thesis using c unfolding cp_def by linarith
    next
      case 3
      then show ?thesis unfolding cp_def by linarith
    qed
  qed
  have d: "cp div 0x1000 = a" "cp div 0x40 mod 0x40 = b" "cp mod 0x40 = c"
    unfolding cp_def using b c by (rule digits3)+
  have "scalar_value cp"
    using r s unfolding scalar_value_def by linarith
  moreover have "encode_cp cp = [b0, b1, b2]"
    using r by (simp add: encode_cp_def d b0 b1 b2)
  ultimately show ?thesis
    unfolding cp_def a_def b_def c_def by simp
qed

lemma dec_enc_4:
  assumes "0xF0 \<le> b0" "b0 \<le> 0xF4"
    "(if b0 = 0xF0 then 0x90 else 0x80) \<le> b1"
    "b1 \<le> (if b0 = 0xF4 then 0x8F else 0xBF)" "continuation b2" "continuation b3"
  shows "scalar_value ((b0 - 0xF0) * 0x40000 + (b1 - 0x80) * 0x1000 +
                       (b2 - 0x80) * 0x40 + (b3 - 0x80)) \<and>
         encode_cp ((b0 - 0xF0) * 0x40000 + (b1 - 0x80) * 0x1000 +
                    (b2 - 0x80) * 0x40 + (b3 - 0x80)) = [b0, b1, b2, b3]"
proof -
  define a where "a = b0 - 0xF0"
  define b where "b = b1 - 0x80"
  define c where "c = b2 - 0x80"
  define d where "d = b3 - 0x80"
  have b1': "0x80 \<le> b1" "b1 \<le> 0xBF"
    using assms(3,4) by (simp_all split: if_splits)
  have b0: "b0 = 0xF0 + a" and b1: "b1 = 0x80 + b" and b2: "b2 = 0x80 + c"
    and b3: "b3 = 0x80 + d"
    using assms(1,5,6) b1' unfolding a_def b_def c_def d_def continuation_def by simp_all
  have a: "a \<le> 4" and b: "b < 0x40" and c: "c < 0x40" and d: "d < 0x40"
    using assms(2,5,6) b1' unfolding a_def b_def c_def d_def continuation_def by arith+
  have lo: "a = 0 \<Longrightarrow> 0x10 \<le> b"
    using assms(3) unfolding b0 b1 by simp
  have hi: "a = 4 \<Longrightarrow> b \<le> 0xF"
    using assms(4) unfolding b0 b1 by simp
  define cp where "cp = a * 0x40000 + b * 0x1000 + c * 0x40 + d"
  have r: "0x10000 \<le> cp" "cp \<le> 0x10FFFF"
    using a b c d lo hi unfolding cp_def by linarith+
  have e: "cp div 0x40000 = a" "cp div 0x1000 mod 0x40 = b" "cp div 0x40 mod 0x40 = c"
    "cp mod 0x40 = d"
    unfolding cp_def using b c d by (rule digits4)+
  have "scalar_value cp"
    using r unfolding scalar_value_def by linarith
  moreover have "encode_cp cp = [b0, b1, b2, b3]"
    using r by (simp add: encode_cp_def e b0 b1 b2 b3)
  ultimately show ?thesis
    unfolding cp_def a_def b_def c_def d_def by simp
qed

lemma decode_units_Cons_Some:
  assumes "decode_units (b0 # bs) = Some s"
  shows "\<exists>cp r s'. scalar_value cp \<and> b0 # bs = encode_cp cp @ r \<and>
           decode_units r = Some s' \<and> s = cp # s'"
proof -
  consider (one) "b0 < 0x80"
    | (two) "\<not> b0 < 0x80" "0xC2 \<le> b0 \<and> b0 \<le> 0xDF"
    | (three) "\<not> b0 < 0x80" "\<not> (0xC2 \<le> b0 \<and> b0 \<le> 0xDF)" "0xE0 \<le> b0 \<and> b0 \<le> 0xEF"
    | (four) "\<not> b0 < 0x80" "\<not> (0xC2 \<le> b0 \<and> b0 \<le> 0xDF)" "\<not> (0xE0 \<le> b0 \<and> b0 \<le> 0xEF)"
        "0xF0 \<le> b0 \<and> b0 \<le> 0xF4"
    | (none) "\<not> b0 < 0x80" "\<not> (0xC2 \<le> b0 \<and> b0 \<le> 0xDF)" "\<not> (0xE0 \<le> b0 \<and> b0 \<le> 0xEF)"
        "\<not> (0xF0 \<le> b0 \<and> b0 \<le> 0xF4)"
    by blast
  then show ?thesis
  proof cases
    case one
    with assms obtain s' where s': "decode_units bs = Some s'" "s = b0 # s'"
      by auto
    have "scalar_value b0" "encode_cp b0 = [b0]"
      using one by (simp_all add: scalar_value_def encode_cp_def)
    with s' show ?thesis
      by (intro exI [of _ b0] exI [of _ bs] exI [of _ s']) simp
  next
    case two
    with assms obtain b1 r where bs: "bs = b1 # r"
      by (cases bs) simp_all
    with assms two have k: "continuation b1"
      by (simp split: if_splits)
    let ?cp = "(b0 - 0xC0) * 0x40 + (b1 - 0x80)"
    from two k have "decode_units (b0 # b1 # r) = map_option ((#) ?cp) (decode_units r)"
      by (intro decode_units_2) simp_all
    moreover from assms have "decode_units (b0 # b1 # r) = Some s"
      unfolding bs .
    ultimately have "map_option ((#) ?cp) (decode_units r) = Some s"
      by (simp only:)
    then obtain s' where s': "decode_units r = Some s'" "s = ?cp # s'"
      by auto
    from two k have "scalar_value ?cp \<and> encode_cp ?cp = [b0, b1]"
      by (intro dec_enc_2) simp_all
    with s' bs show ?thesis
      by (intro exI [of _ ?cp] exI [of _ r] exI [of _ s']) simp
  next
    case three
    with assms obtain b1 t where bs: "bs = b1 # t"
      by (cases bs) simp_all
    with assms three obtain b2 r where t: "t = b2 # r"
      by (cases t) simp_all
    have g: "(if b0 = 0xE0 then 0xA0 else 0x80) \<le> b1 \<and>
        b1 \<le> (if b0 = 0xED then 0x9F else 0xBF) \<and> continuation b2"
    proof (rule ccontr)
      assume "\<not> ?thesis"
      with three bs t have "decode_units (b0 # bs) = None"
        by (auto split: if_splits)
      with assms show False by simp
    qed
    let ?cp = "(b0 - 0xE0) * 0x1000 + (b1 - 0x80) * 0x40 + (b2 - 0x80)"
    from three g have "decode_units (b0 # b1 # b2 # r) = map_option ((#) ?cp) (decode_units r)"
      by (intro decode_units_3) simp_all
    moreover from assms have "decode_units (b0 # b1 # b2 # r) = Some s"
      unfolding bs t .
    ultimately have "map_option ((#) ?cp) (decode_units r) = Some s"
      by (simp only:)
    then obtain s' where s': "decode_units r = Some s'" "s = ?cp # s'"
      by auto
    from three g have "scalar_value ?cp \<and> encode_cp ?cp = [b0, b1, b2]"
      by (intro dec_enc_3) simp_all
    with s' bs t show ?thesis
      by (intro exI [of _ ?cp] exI [of _ r] exI [of _ s']) simp
  next
    case four
    with assms obtain b1 t where bs: "bs = b1 # t"
      by (cases bs) simp_all
    with assms four obtain b2 u where t: "t = b2 # u"
      by (cases t) simp_all
    with assms four bs obtain b3 r where u: "u = b3 # r"
      by (cases u) simp_all
    have g: "(if b0 = 0xF0 then 0x90 else 0x80) \<le> b1 \<and>
        b1 \<le> (if b0 = 0xF4 then 0x8F else 0xBF) \<and> continuation b2 \<and> continuation b3"
    proof (rule ccontr)
      assume "\<not> ?thesis"
      with four bs t u have "decode_units (b0 # bs) = None"
        by (auto split: if_splits)
      with assms show False by simp
    qed
    let ?cp = "(b0 - 0xF0) * 0x40000 + (b1 - 0x80) * 0x1000 + (b2 - 0x80) * 0x40 + (b3 - 0x80)"
    from four g have "decode_units (b0 # b1 # b2 # b3 # r) =
        map_option ((#) ?cp) (decode_units r)"
      by (intro decode_units_4) simp_all
    moreover from assms have "decode_units (b0 # b1 # b2 # b3 # r) = Some s"
      unfolding bs t u .
    ultimately have "map_option ((#) ?cp) (decode_units r) = Some s"
      by (simp only:)
    then obtain s' where s': "decode_units r = Some s'" "s = ?cp # s'"
      by auto
    from four g have "scalar_value ?cp \<and> encode_cp ?cp = [b0, b1, b2, b3]"
      by (intro dec_enc_4) simp_all
    with s' bs t u show ?thesis
      by (intro exI [of _ ?cp] exI [of _ r] exI [of _ s']) simp
  next
    case none
    with assms show ?thesis by simp
  qed
qed

lemma encode_cp_not_Nil: "encode_cp cp \<noteq> []"
  by (simp add: encode_cp_def)

lemma decode_units_sound:
  "decode_units us = Some s \<Longrightarrow> list_all scalar_value s \<and> concat (map encode_cp s) = us"
proof (induction "length us" arbitrary: us s rule: less_induct)
  case less
  show ?case
  proof (cases us)
    case Nil
    with less.prems show ?thesis by simp
  next
    case (Cons b0 bs)
    with less.prems obtain cp r s' where
      h: "scalar_value cp" "b0 # bs = encode_cp cp @ r" "decode_units r = Some s'" "s = cp # s'"
      using decode_units_Cons_Some [of b0 bs s] by blast
    have "length r < length us"
    proof -
      have "length us = length (encode_cp cp) + length r"
        using h(2) Cons by (metis length_append)
      moreover have "0 < length (encode_cp cp)"
        using encode_cp_not_Nil [of cp] by simp
      ultimately show ?thesis by linarith
    qed
    from less.hyps [OF this h(3)] h Cons show ?thesis
      by simp
  qed
qed

subsection \<open>Bytes\<close>

lemma scalar_value_le: "scalar_value cp \<Longrightarrow> cp \<le> 0x10FFFF"
  by (auto simp: scalar_value_def)

lemma encode_cp_lt_256:
  assumes "cp \<le> 0x10FFFF"
  shows "list_all (\<lambda>u. u < 256) (encode_cp cp)"
proof -
  have m: "0x80 + x mod 0x40 < (256 :: nat)" for x :: nat
  proof -
    have "x mod 0x40 < 0x40" by simp
    then show ?thesis by linarith
  qed
  have a: "cp < 0x800 \<Longrightarrow> cp div 0x40 < 0x20"
    by (rule less_mult_imp_div_less) simp
  have b: "cp < 0x10000 \<Longrightarrow> cp div 0x1000 < 0x10"
    by (rule less_mult_imp_div_less) simp
  have c: "cp div 0x40000 < 5"
    using assms by (intro less_mult_imp_div_less) simp
  consider "cp < 0x80" | "\<not> cp < 0x80" "cp < 0x800" | "\<not> cp < 0x80" "\<not> cp < 0x800" "cp < 0x10000"
    | "\<not> cp < 0x80" "\<not> cp < 0x800" "\<not> cp < 0x10000"
    by blast
  then show ?thesis
  proof cases
    case 1
    then show ?thesis by (simp add: encode_cp_def)
  next
    case 2
    then have "encode_cp cp = [0xC0 + cp div 0x40, 0x80 + cp mod 0x40]"
      by (simp add: encode_cp_def)
    moreover have "0xC0 + cp div 0x40 < 256"
      using a 2 by linarith
    ultimately show ?thesis
      using m [of cp] by simp
  next
    case 3
    then have "encode_cp cp =
        [0xE0 + cp div 0x1000, 0x80 + cp div 0x40 mod 0x40, 0x80 + cp mod 0x40]"
      by (simp add: encode_cp_def)
    moreover have "0xE0 + cp div 0x1000 < 256"
      using b 3 by linarith
    ultimately show ?thesis
      using m [of cp] m [of "cp div 0x40"] by simp
  next
    case 4
    then have "encode_cp cp =
        [0xF0 + cp div 0x40000, 0x80 + cp div 0x1000 mod 0x40,
         0x80 + cp div 0x40 mod 0x40, 0x80 + cp mod 0x40]"
      by (simp add: encode_cp_def)
    moreover have "0xF0 + cp div 0x40000 < 256"
      using c by linarith
    ultimately show ?thesis
      using m [of cp] m [of "cp div 0x40"] m [of "cp div 0x1000"] by simp
  qed
qed

lemma units_lt_256:
  "list_all scalar_value s \<Longrightarrow> list_all (\<lambda>u. u < 256) (concat (map encode_cp s))"
  by (induction s) (simp_all add: encode_cp_lt_256 scalar_value_le)

lemma unat_of_nat_byte:
  "list_all (\<lambda>u. u < 256) us \<Longrightarrow> map unat (map of_nat us :: byte list) = us"
  by (induction us) (simp_all add: unat_of_nat)

lemma of_nat_unat_byte: "map of_nat (map unat bs) = (bs :: byte list)"
  by (induction bs) simp_all

lemma decode_utf8_encode:
  "list_all scalar_value s \<Longrightarrow> decode_utf8 (utf8_encode s) = Inr s"
  using unat_of_nat_byte [OF units_lt_256, of s]
  by (simp add: decode_utf8_def utf8_encode_def decode_units_encode)

lemma decode_utf8_Inr:
  assumes "decode_utf8 bs = Inr s"
  shows "list_all scalar_value s \<and> utf8_encode s = bs"
proof -
  from assms have "decode_units (map unat bs) = Some s"
    by (simp add: decode_utf8_def split: option.splits)
  then have "list_all scalar_value s" and "concat (map encode_cp s) = map unat bs"
    by (simp_all add: decode_units_sound)
  then show ?thesis
    using of_nat_unat_byte [of bs] by (simp add: utf8_encode_def)
qed

lemma decode_utf8_valid: "valid_utf8 bs \<longleftrightarrow> (\<exists>s. decode_utf8 bs = Inr s)"
  unfolding valid_utf8_def using decode_utf8_encode decode_utf8_Inr by blast

lemma decode_utf8_invalid: "\<not> valid_utf8 bs \<longleftrightarrow> decode_utf8 bs = Inl UnicodeDecodeError"
proof (cases "decode_utf8 bs")
  case (Inl e)
  then show ?thesis
    by (simp add: decode_utf8_valid) (auto simp: decode_utf8_def split: option.splits)
next
  case (Inr s)
  then show ?thesis
    by (simp add: decode_utf8_valid)
qed

section \<open>Exceptions that leave a handler\<close>

lemma file_read_raises:
  "file_read file = Inl e \<longleftrightarrow> closed file \<and> e = ValueError (py ''I/O operation on closed file.'')"
  by (auto simp: file_read_def)

text \<open>
  The PDF, Word and text handlers catch \<open>Exception\<close> and return a value on every
  stream. The CSV handler returns a value on every open stream; on a closed stream the
  \<open>ValueError\<close> of \<open>file.read()\<close> passes its \<open>except UnicodeDecodeError\<close> clause.
\<close>

lemma read_file_raises_iff:
  "read_file lib handler file = Inl e \<longleftrightarrow>
     handler = CSVFileHandler \<and> closed file \<and>
     e = ValueError (py ''I/O operation on closed file.'')"
proof (cases handler)
  case PDFHandler
  then show ?thesis
    by (simp add: PDFHandler_read_file_def split: sum.splits)
next
  case DocxHandler
  then show ?thesis
    by (simp add: DocxHandler_read_file_def split: sum.splits)
next
  case TxtHandler
  then show ?thesis
    by (simp add: TxtHandler_read_file_def split: sum.splits)
next
  case CSVFileHandler
  show ?thesis
  proof (cases "closed file")
    case True
    then show ?thesis
      unfolding CSVFileHandler
      by (auto simp: CSVFileHandler_read_file_def file_read_def)
  next
    case False
    then show ?thesis
      unfolding CSVFileHandler
      by (auto simp: CSVFileHandler_read_file_def file_read_def
          split: sum.splits exn.splits dest: decode_utf8_raises)
  qed
qed


section \<open>The PDF handler\<close>

text \<open>
  C3: when \<open>PdfReader\<close> parses the file into pages and \<open>extract_text\<close> raises on none
  of them, \<open>PDFHandler.read_file\<close> returns the texts of the pages concatenated in page
  order with nothing between them; a page that yields no text (\<open>None\<close> or the empty
  string) adds nothing, and the pages after it are still extracted.
\<close>

theorem PDFHandler_concatenates_pages:
  assumes "PdfReader lib file = Inr pages"
    and "list_all (\<lambda>p. \<not> raises (extract_text p)) pages"
  shows "PDFHandler_read_file lib file = Inr (Some (concat (map page_text pages))) \<and>
         concat (map page_text pages) = concat (map page_text (filter yields_text pages))"
  using assms
  by (simp add: PDFHandler_read_file_def pdf_pages_loop_all concat_page_text_filter)

theorem PDFHandler_concatenates_pages_witness:
  "PdfReader sample_library sample_file = Inr sample_pages \<and>
   list_all (\<lambda>p. \<not> raises (extract_text p)) sample_pages \<and>
   PDFHandler_read_file sample_library sample_file = Inr (Some (py ''Helloworld''))"
proof -
  have a: "PdfReader sample_library sample_file = Inr sample_pages"
    by (simp add: sample_library_def)
  have b: "list_all (\<lambda>p. \<not> raises (extract_text p)) sample_pages"
    by (simp add: sample_pages_def)
  have c: "concat (map page_text sample_pages) = py ''Helloworld''"
    by (simp add: sample_pages_def page_text_def py_def)
  from PDFHandler_concatenates_pages [OF a b] a b c show ?thesis
    by simp
qed

text \<open>
  C7: when parsing the PDF raises, in \<open>PdfReader\<close> or in \<open>extract_text\<close> on some
  page, \<open>PDFHandler.read_file\<close> returns the empty string and raises nothing.
\<close>

theorem PDFHandler_corrupt_gives_empty:
  "(raises (PdfReader lib file) \<longrightarrow>
      PDFHandler_read_file lib file = Inr (Some [])) \<and>
   (PdfReader lib file = Inr pages \<and>
    list_ex (\<lambda>p. raises (extract_text p)) pages \<longrightarrow>
      PDFHandler_read_file lib file = Inr (Some []))"
proof (intro conjI impI)
  assume "raises (PdfReader lib file)"
  then show "PDFHandler_read_file lib file = Inr (Some [])"
    by (simp add: PDFHandler_read_file_def raises_def split: sum.splits)
next
  assume "PdfReader lib file = Inr pages \<and>
    list_ex (\<lambda>p. raises (extract_text p)) pages"
  then have p: "PdfReader lib file = Inr pages"
    and "raises (pdf_pages_loop [] pages)"
    by (simp_all add: pdf_pages_loop_raises)
  then show "PDFHandler_read_file lib file = Inr (Some [])"
    by (simp add: PDFHandler_read_file_def raises_def split: sum.splits)
qed

theorem PDFHandler_corrupt_gives_empty_witness:
  "raises (PdfReader failing_library sample_file) \<and>
   PDFHandler_read_file failing_library sample_file = Inr (Some []) \<and>
   PdfReader broken_page_library sample_file =
     Inr [Page (Inr (Some (py ''Hello''))),
          Page (Inl (LibraryError ''File has not been decrypted''))] \<and>
   list_ex (\<lambda>p. raises (extract_text p))
     [Page (Inr (Some (py ''Hello''))),
      Page (Inl (LibraryError ''File has not been decrypted''))] \<and>
   PDFHandler_read_file broken_page_library sample_file = Inr (Some [])"
  using PDFHandler_corrupt_gives_empty [of failing_library sample_file]
    PDFHandler_corrupt_gives_empty [of broken_page_library sample_file
      "[Page (Inr (Some (py ''Hello''))),
        Page (Inl (LibraryError ''File has not been decrypted''))]"]
  by (simp add: failing_library_def broken_page_library_def)

section \<open>The Word handler\<close>

text \<open>
  C5: when \<open>Document\<close> parses the file into paragraphs with texts \<open>ts\<close>,
  \<open>DocxHandler.read_file\<close> returns the first text followed by each further text
  preceded by one space, in document order, so there is no separator before the first
  or after the last text; the paragraphs "Hello" and "world" give "Hello world".
\<close>

theorem DocxHandler_joins_paragraphs:
  assumes "Document lib file = Inr ps"
    and "map paragraph_text ps = map Inr ts"
  shows "DocxHandler_read_file lib file =
           Inr (Some (case ts of [] \<Rightarrow> [] | t # us \<Rightarrow> t @ concat (map (\<lambda>u. py '' '' @ u) us))) \<and>
         (ts = [py ''Hello'', py ''world''] \<longrightarrow>
            DocxHandler_read_file lib file = Inr (Some (py ''Hello world'')))"
proof -
  have r: "DocxHandler_read_file lib file = Inr (Some (str_join (py '' '') ts))"
    using assms by (simp add: DocxHandler_read_file_def paragraph_texts_all)
  have "str_join (py '' '') ts =
      (case ts of [] \<Rightarrow> [] | t # us \<Rightarrow> t @ concat (map (\<lambda>u. py '' '' @ u) us))"
    by (cases ts) (simp_all add: str_join_Cons)
  moreover have "str_join (py '' '') [py ''Hello'', py ''world''] = py ''Hello world''"
    by (simp add: py_def)
  ultimately show ?thesis
    using r by auto
qed

theorem DocxHandler_joins_paragraphs_witness:
  "Document broken_page_library sample_file =
     Inr [Paragraph (Inr (py ''Hello'')), Paragraph (Inr (py ''world''))] \<and>
   map paragraph_text [Paragraph (Inr (py ''Hello'')), Paragraph (Inr (py ''world''))] =
     map Inr [py ''Hello'', py ''world''] \<and>
   DocxHandler_read_file broken_page_library sample_file = Inr (Some (py ''Hello world''))"
proof -
  have a: "Document broken_page_library sample_file =
     Inr [Paragraph (Inr (py ''Hello'')), Paragraph (Inr (py ''world''))]"
    by (simp add: broken_page_library_def)
  have b: "map paragraph_text [Paragraph (Inr (py ''Hello'')), Paragraph (Inr (py ''world''))] =
     map Inr [py ''Hello'', py ''world'']"
    by simp
  from DocxHandler_joins_paragraphs [OF a b] a b show ?thesis
    by (simp add: py_def)
qed

text \<open>
  C10: the Word handler skips no paragraph. Its result is every text in order, each but
  the last followed by one space, empty texts included: an empty paragraph between other
  paragraphs leaves two consecutive spaces, and as soon as there are two paragraphs and
  one is empty the result differs from the join of the non-empty texts; "Hello", "",
  "world" give "Hello  world". The PDF handler returns the texts of exactly the pages
  that yield text, so pages returning \<open>None\<close> or the empty string leave no trace:
  "Hello", \<open>None\<close>, "", "world" give "Helloworld".
\<close>

theorem DocxHandler_keeps_empty_paragraphs:
  assumes "Document lib file = Inr ps"
    and "map paragraph_text ps = map Inr ts"
  shows "DocxHandler_read_file lib file = Inr (Some (space_separated ts)) \<and>
         (\<forall>us vs. ts = us @ [] # vs \<and> us \<noteq> [] \<and> vs \<noteq> [] \<longrightarrow>
            DocxHandler_read_file lib file =
              Inr (Some (space_separated us @ py ''  '' @ space_separated vs))) \<and>
         ([] \<in> set ts \<and> 2 \<le> length ts \<longrightarrow>
            DocxHandler_read_file lib file \<noteq>
              Inr (Some (space_separated (filter (\<lambda>t. t \<noteq> []) ts)))) \<and>
         (ts = [py ''Hello'', [], py ''world''] \<longrightarrow>
            DocxHandler_read_file lib file = Inr (Some (py ''Hello  world''))) \<and>
         (\<forall>pages. PdfReader lib file = Inr pages \<and>
            list_all (\<lambda>p. \<not> raises (extract_text p)) pages \<longrightarrow>
            PDFHandler_read_file lib file =
              Inr (Some (concat (map page_text (filter yields_text pages))))) \<and>
         (PdfReader lib file =
            Inr [Page (Inr (Some (py ''Hello''))), Page (Inr None), Page (Inr (Some [])),
                 Page (Inr (Some (py ''world'')))] \<longrightarrow>
            PDFHandler_read_file lib file = Inr (Some (py ''Helloworld'')))"
proof -
  have r: "DocxHandler_read_file lib file = Inr (Some (str_join (py '' '') ts))"
    using assms by (simp add: DocxHandler_read_file_def paragraph_texts_all)
  have a: "DocxHandler_read_file lib file = Inr (Some (space_separated ts))"
    using r by (simp add: space_separated_str_join)
  have b: "DocxHandler_read_file lib file =
      Inr (Some (space_separated us @ py ''  '' @ space_separated vs))"
    if "ts = us @ [] # vs \<and> us \<noteq> [] \<and> vs \<noteq> []" for us vs
  proof -
    from that have "str_join (py '' '') ts =
        str_join (py '' '') us @ py '' '' @ str_join (py '' '') ([] # vs)"
      by (simp add: str_join_append)
    moreover from that have "str_join (py '' '') ([] # vs) = py '' '' @ str_join (py '' '') vs"
      by (cases vs) simp_all
    moreover have "py ''  '' = py '' '' @ py '' ''"
      by (simp add: py_def)
    ultimately show ?thesis
      using r by (simp add: space_separated_str_join)
  qed
  have c: "DocxHandler_read_file lib file \<noteq>
      Inr (Some (space_separated (filter (\<lambda>t. t \<noteq> []) ts)))"
    if "[] \<in> set ts \<and> 2 \<le> length ts"
    using that r str_join_filter_differs [of ts] by (simp add: space_separated_str_join)
  have d: "DocxHandler_read_file lib file = Inr (Some (py ''Hello  world''))"
    if "ts = [py ''Hello'', [], py ''world'']"
    using that r by (simp add: py_def)
  have e: "PDFHandler_read_file lib file =
      Inr (Some (concat (map page_text (filter yields_text pages))))"
    if "PdfReader lib file = Inr pages \<and> list_all (\<lambda>p. \<not> raises (extract_text p)) pages"
    for pages
    using that by (simp add: PDFHandler_read_file_def pdf_pages_loop_all)
  have f: "PDFHandler_read_file lib file = Inr (Some (py ''Helloworld''))"
    if "PdfReader lib file =
      Inr [Page (Inr (Some (py ''Hello''))), Page (Inr None), Page (Inr (Some [])),
           Page (Inr (Some (py ''world'')))]"
    using that by (simp add: PDFHandler_read_file_def py_def)
  from a b c d e f show ?thesis
    by blast
qed

theorem DocxHandler_keeps_empty_paragraphs_witness:
  "Document sample_library sample_file = Inr sample_paragraphs \<and>
   map paragraph_text sample_paragraphs = map Inr [py ''Hello'', [], py ''world''] \<and>
   [py ''Hello'', [], py ''world''] = [py ''Hello''] @ [] # [py ''world''] \<and>
   [] \<in> set [py ''Hello'', [], py ''world''] \<and>
   2 \<le> length [py ''Hello'', [], py ''world''] \<and>
   PdfReader sample_library sample_file = Inr sample_pages \<and>
   list_all (\<lambda>p. \<not> raises (extract_text p)) sample_pages \<and>
   DocxHandler_read_file sample_library sample_file = Inr (Some (py ''Hello  world'')) \<and>
   DocxHandler_read_file sample_library sample_file \<noteq> Inr (Some (py ''Hello world'')) \<and>
   PDFHandler_read_file sample_library sample_file = Inr (Some (py ''Helloworld''))"
proof -
  have a: "Document sample_library sample_file = Inr sample_paragraphs"
    by (simp add: sample_library_def)
  have b: "map paragraph_text sample_paragraphs = map Inr [py ''Hello'', [], py ''world'']"
    by (simp add: sample_paragraphs_def)
  have c: "PdfReader sample_library sample_file = Inr sample_pages"
    by (simp add: sample_library_def)
  have d: "list_all (\<lambda>p. \<not> raises (extract_text p)) sample_pages"
    by (simp add: sample_pages_def)
  have e: "concat (map page_text (filter yields_text sample_pages)) = py ''Helloworld''"
    by (simp add: sample_pages_def yields_text_def page_text_def py_def)
  have f: "space_separated (filter (\<lambda>t. t \<noteq> []) [py ''Hello'', [], py ''world'']) =
      py ''Hello world''"
    by (simp add: space_separated_def py_def)
  have g: "space_separated [py ''Hello''] @ py ''  '' @ space_separated [py ''world''] =
      py ''Hello  world''"
    by (simp add: space_separated_def py_def)
  have h: "[py ''Hello'', [], py ''world''] = [py ''Hello''] @ [] # [py ''world''] \<and>
      [py ''Hello''] \<noteq> [] \<and> [py ''world''] \<noteq> []"
    by simp
  have k: "[] \<in> set [py ''Hello'', [], py ''world''] \<and>
      2 \<le> length [py ''Hello'', [], py ''world'']"
    by simp
  note t = DocxHandler_keeps_empty_paragraphs [OF a b]
  from t have "\<forall>us vs. [py ''Hello'', [], py ''world''] = us @ [] # vs \<and>
      us \<noteq> [] \<and> vs \<noteq> [] \<longrightarrow>
      DocxHandler_read_file sample_library sample_file =
        Inr (Some (space_separated us @ py ''  '' @ space_separated vs))"
    by blast
  with h have "DocxHandler_read_file sample_library sample_file =
      Inr (Some (space_separated [py ''Hello''] @ py ''  '' @ space_separated [py ''world'']))"
    by blast
  then have t1: "DocxHandler_read_file sample_library sample_file =
      Inr (Some (py ''Hello  world''))"
    unfolding g .
  from t k have "DocxHandler_read_file sample_library sample_file \<noteq>
      Inr (Some (space_separated (filter (\<lambda>t. t \<noteq> []) [py ''Hello'', [], py ''world''])))"
    by blast
  then have t2: "DocxHandler_read_file sample_library sample_file \<noteq>
      Inr (Some (py ''Hello world''))"
    unfolding f .
  from t c d have "PDFHandler_read_file sample_library sample_file =
      Inr (Some (concat (map page_text (filter yields_text sample_pages))))"
    by blast
  then have t3: "PDFHandler_read_file sample_library sample_file =
      Inr (Some (py ''Helloworld''))"
    unfolding e .
  from a b c d h k t1 t2 t3 show ?thesis
    by blast
qed

section \<open>The text and CSV handlers\<close>

text \<open>
  C6: when the bytes read from the file are the UTF-8 encoding of a string of scalar
  values, \<open>TxtHandler.read_file\<close> returns exactly that string; when the bytes read are
  not valid UTF-8 it returns the empty string, and raises nothing.
\<close>

theorem TxtHandler_round_trip:
  "(list_all scalar_value s \<and> file_read file = Inr (utf8_encode s) \<longrightarrow>
      TxtHandler_read_file file = Inr (Some s)) \<and>
   (file_read file = Inr bs \<and> \<not> valid_utf8 bs \<longrightarrow>
      TxtHandler_read_file file = Inr (Some []))"
  by (auto simp: TxtHandler_read_file_def decode_utf8_encode decode_utf8_invalid)

theorem TxtHandler_round_trip_witness:
  "list_all scalar_value [0x48, 0xE9] \<and>
   file_read sample_file = Inr (utf8_encode [0x48, 0xE9]) \<and>
   TxtHandler_read_file sample_file = Inr (Some [0x48, 0xE9]) \<and>
   file_read invalid_file = Inr [0x48, 0xFF] \<and> \<not> valid_utf8 [0x48, 0xFF] \<and>
   TxtHandler_read_file invalid_file = Inr (Some [])"
proof -
  have a: "list_all scalar_value [0x48, 0xE9]"
    by (simp add: scalar_value_def)
  have b: "file_read sample_file = Inr (utf8_encode [0x48, 0xE9])"
    by (simp add: file_read_def sample_file_def utf8_encode_def encode_cp_def)
  have c: "file_read invalid_file = Inr [0x48, 0xFF]"
    by (simp add: file_read_def invalid_file_def)
  have "decode_utf8 [0x48, 0xFF] = Inl UnicodeDecodeError"
    by (simp add: decode_utf8_def)
  then have d: "\<not> valid_utf8 [0x48, 0xFF]"
    by (simp add: decode_utf8_invalid)
  from TxtHandler_round_trip [of "[0x48, 0xE9]" sample_file]
    TxtHandler_round_trip [of "[]" invalid_file "[0x48, 0xFF]"] a b c d
  show ?thesis by simp
qed

text \<open>
  C4: when the bytes read from the file are the UTF-8 encoding of a string of scalar
  values, \<open>CSVFileHandler.read_file\<close> returns exactly that string, unchanged; when the
  bytes read are not valid UTF-8 it returns \<open>None\<close>, and only then, so that \<open>None\<close>
  differs from the empty string an empty file gives.
\<close>

theorem CSVFileHandler_round_trip:
  "(list_all scalar_value s \<and> file_read file = Inr (utf8_encode s) \<longrightarrow>
      CSVFileHandler_read_file file = Inr (Some s)) \<and>
   (file_read file = Inr bs \<and> \<not> valid_utf8 bs \<longrightarrow>
      CSVFileHandler_read_file file = Inr None) \<and>
   (CSVFileHandler_read_file file = Inr None \<longrightarrow>
      (\<exists>bs. file_read file = Inr bs \<and> \<not> valid_utf8 bs)) \<and>
   (file_read file = Inr [] \<longrightarrow> CSVFileHandler_read_file file = Inr (Some [])) \<and>
   (Inr None :: exn + pystr option) \<noteq> Inr (Some [])"
proof (intro conjI impI)
  assume "list_all scalar_value s \<and> file_read file = Inr (utf8_encode s)"
  then show "CSVFileHandler_read_file file = Inr (Some s)"
    by (simp add: CSVFileHandler_read_file_def decode_utf8_encode)
next
  assume "file_read file = Inr bs \<and> \<not> valid_utf8 bs"
  then show "CSVFileHandler_read_file file = Inr None"
    by (simp add: CSVFileHandler_read_file_def decode_utf8_invalid)
next
  assume "CSVFileHandler_read_file file = Inr None"
  then show "\<exists>bs. file_read file = Inr bs \<and> \<not> valid_utf8 bs"
    by (auto simp: CSVFileHandler_read_file_def decode_utf8_valid file_read_raises
        split: sum.splits exn.splits)
next
  assume "file_read file = Inr []"
  then show "CSVFileHandler_read_file file = Inr (Some [])"
    by (simp add: CSVFileHandler_read_file_def decode_utf8_def)
next
  show "(Inr None :: exn + pystr option) \<noteq> Inr (Some [])"
    by simp
qed

theorem CSVFileHandler_round_trip_witness:
  "list_all scalar_value [0x48, 0xE9] \<and>
   file_read sample_file = Inr (utf8_encode [0x48, 0xE9]) \<and>
   CSVFileHandler_read_file sample_file = Inr (Some [0x48, 0xE9]) \<and>
   file_read invalid_file = Inr [0x48, 0xFF] \<and> \<not> valid_utf8 [0x48, 0xFF] \<and>
   CSVFileHandler_read_file invalid_file = Inr None \<and>
   file_read \<lparr>content = [0x48], pos = 1, closed = False\<rparr> = Inr [] \<and>
   CSVFileHandler_read_file \<lparr>content = [0x48], pos = 1, closed = False\<rparr> = Inr (Some [])"
proof -
  have a: "list_all scalar_value [0x48, 0xE9]"
    by (simp add: scalar_value_def)
  have b: "file_read sample_file = Inr (utf8_encode [0x48, 0xE9])"
    by (simp add: file_read_def sample_file_def utf8_encode_def encode_cp_def)
  have c: "file_read invalid_file = Inr [0x48, 0xFF]"
    by (simp add: file_read_def invalid_file_def)
  have "decode_utf8 [0x48, 0xFF] = Inl UnicodeDecodeError"
    by (simp add: decode_utf8_def)
  then have d: "\<not> valid_utf8 [0x48, 0xFF]"
    by (simp add: decode_utf8_invalid)
  have e: "file_read \<lparr>content = [0x48], pos = 1, closed = False\<rparr> = Inr []"
    by (simp add: file_read_def)
  from CSVFileHandler_round_trip [of "[0x48, 0xE9]" sample_file]
    CSVFileHandler_round_trip [of "[]" invalid_file "[0x48, 0xFF]"]
    CSVFileHandler_round_trip [of "[]" "\<lparr>content = [0x48], pos = 1, closed = False\<rparr>"]
    a b c d e
  show ?thesis by simp
qed

section \<open>The selector is one-to-one\<close>

text \<open>
  C8: the selector returns a handler exactly for the four supported strings, every
  handler is the one of exactly one string, distinct supported strings have distinct
  handlers, and the supported strings are four.
\<close>

theorem get_file_handler_one_to_one:
  "(\<forall>file_type. (\<exists>h. get_file_handler file_type = Inr h) \<longleftrightarrow> file_type \<in> supported_types) \<and>
   (\<forall>h. \<exists>!file_type. get_file_handler file_type = Inr h) \<and>
   inj_on get_file_handler supported_types \<and>
   card supported_types = 4"
proof (intro conjI allI)
  fix file_type
  show "(\<exists>h. get_file_handler file_type = Inr h) \<longleftrightarrow> file_type \<in> supported_types"
    by (simp add: get_file_handler_def supported_types_def)
next
  fix h
  show "\<exists>!file_type. get_file_handler file_type = Inr h"
  proof (cases h)
    case PDFHandler
    show ?thesis
      unfolding PDFHandler
      by (rule ex1I [of _ "py ''application/pdf''"])
        (simp_all add: get_file_handler_def py_eq_iff split: if_splits)
  next
    case DocxHandler
    show ?thesis
      unfolding DocxHandler
      by (rule ex1I [of _
            "py ''application/vnd.openxmlformats-officedocument.wordprocessingml.document''"])
        (simp_all add: get_file_handler_def py_eq_iff split: if_splits)
  next
    case TxtHandler
    show ?thesis
      unfolding TxtHandler
      by (rule ex1I [of _ "py ''text/plain''"])
        (simp_all add: get_file_handler_def py_eq_iff split: if_splits)
  next
    case CSVFileHandler
    show ?thesis
      unfolding CSVFileHandler
      by (rule ex1I [of _ "py ''text/csv''"])
        (simp_all add: get_file_handler_def py_eq_iff split: if_splits)
  qed
next
  show "inj_on get_file_handler supported_types"
    by (simp add: inj_on_def get_file_handler_def supported_types_def py_eq_iff)
next
  show "card supported_types = 4"
    by (simp add: supported_types_def py_eq_iff)
qed

theorem get_file_handler_one_to_one_witness:
  "py ''text/csv'' \<in> supported_types \<and> py ''text/plain'' \<in> supported_types \<and>
   py ''image/png'' \<notin> supported_types \<and>
   get_file_handler (py ''text/csv'') \<noteq> get_file_handler (py ''text/plain'') \<and>
   (\<nexists>h. get_file_handler (py ''image/png'') = Inr h)"
proof -
  have a: "py ''text/csv'' \<in> supported_types" "py ''text/plain'' \<in> supported_types"
    "py ''image/png'' \<notin> supported_types" "py ''text/csv'' \<noteq> py ''text/plain''"
    by (simp_all add: supported_types_def py_eq_iff)
  from get_file_handler_one_to_one a show ?thesis
    unfolding inj_on_def by blast
qed

end
